theory Spec2Isabelle
  imports Complex_Main "HOL-Library.Word" "HOL-Library.Monad_Syntax"
begin

unbundle bit_operations_syntax

section \<open>JavaScript values used by the timing engine\<close>

subsection \<open>Strings\<close>

text \<open>
  A JavaScript string is a sequence of UTF-16 code units, and \<open>.length\<close> counts code
  units. \<open>js\<close> embeds an ASCII literal, for writing concrete inputs.
\<close>

type_synonym jschar = "16 word"
type_synonym jsstring = "jschar list"

definition js :: "string \<Rightarrow> jsstring" where
  "js s = map of_char s"

definition space :: jschar where
  "space = 32"

text \<open>
  The class \<open>\s\<close> of a regular expression and the characters removed by \<open>trim()\<close> are the
  same set: WhiteSpace and LineTerminator of ECMAScript.
\<close>

definition is_ws :: "jschar \<Rightarrow> bool" where
  "is_ws c \<longleftrightarrow>
     c = 9 \<or> c = 10 \<or> c = 11 \<or> c = 12 \<or> c = 13 \<or> c = 32 \<or> c = 160 \<or> c = 5760 \<or>
     (8192 \<le> c \<and> c \<le> 8202) \<or> c = 8232 \<or> c = 8233 \<or> c = 8239 \<or> c = 8287 \<or>
     c = 12288 \<or> c = 65279"

text \<open>\<open>s.replace(/\s+/g, ' ')\<close>: every maximal run of whitespace becomes one space.\<close>

function replace_ws :: "jsstring \<Rightarrow> jsstring" where
  "replace_ws [] = []"
| "replace_ws (c # cs) =
     (if is_ws c then space # replace_ws (dropWhile is_ws cs) else c # replace_ws cs)"
  by pat_completeness auto
termination
  by (relation "measure length") (auto simp: le_imp_less_Suc length_dropWhile_le)

text \<open>\<open>s.trim()\<close>\<close>

definition trim :: "jsstring \<Rightarrow> jsstring" where
  "trim s = rev (dropWhile is_ws (rev (dropWhile is_ws s)))"

text \<open>
  \<open>s.split(' ')\<close>: the pieces between the separators; the empty string gives one empty
  piece.
\<close>

fun split :: "jschar \<Rightarrow> jsstring \<Rightarrow> jsstring list" where
  "split d [] = [[]]"
| "split d (c # cs) =
     (if c = d then [] # split d cs
      else (case split d cs of [] \<Rightarrow> [[c]] | w # ws \<Rightarrow> (c # w) # ws))"

text \<open>\<open>a.join(' ')\<close>; the empty array gives the empty string.\<close>

fun join :: "jsstring list \<Rightarrow> jsstring" where
  "join [] = []"
| "join [w] = w"
| "join (w # v # ws) = w @ space # join (v # ws)"

text \<open>\<open>/[.!?]$/.test(word)\<close>: the last code unit of the word is one of the three marks.\<close>

definition endsWithPunctuation :: "jsstring \<Rightarrow> bool" where
  "endsWithPunctuation word \<longleftrightarrow>
     (case rev word of [] \<Rightarrow> False | c # _ \<Rightarrow> c = 46 \<or> c = 33 \<or> c = 63)"

subsection \<open>Numbers\<close>

text \<open>
  A JavaScript number is an IEEE 754 double. The model keeps the special values apart and
  represents a finite double by the real number it denotes: rounding, overflow to an
  infinity and the sign of zero are not modelled by the operations of this subsection
  (the arithmetic of the WAV header, further down, rounds). Division by zero, the
  arithmetic of \<open>NaN\<close> and of the infinities, and comparisons with \<open>NaN\<close> are as in the
  language.
\<close>

datatype jsnum = Fin real | PInf | NInf | NaN

fun js_add :: "jsnum \<Rightarrow> jsnum \<Rightarrow> jsnum" where
  "js_add (Fin x) (Fin y) = Fin (x + y)"
| "js_add NaN _ = NaN"
| "js_add _ NaN = NaN"
| "js_add PInf NInf = NaN"
| "js_add NInf PInf = NaN"
| "js_add PInf _ = PInf"
| "js_add NInf _ = NInf"
| "js_add _ PInf = PInf"
| "js_add _ NInf = NInf"

fun js_mul :: "jsnum \<Rightarrow> jsnum \<Rightarrow> jsnum" where
  "js_mul (Fin x) (Fin y) = Fin (x * y)"
| "js_mul NaN _ = NaN"
| "js_mul _ NaN = NaN"
| "js_mul (Fin x) PInf = (if x = 0 then NaN else if 0 < x then PInf else NInf)"
| "js_mul (Fin x) NInf = (if x = 0 then NaN else if 0 < x then NInf else PInf)"
| "js_mul PInf (Fin y) = (if y = 0 then NaN else if 0 < y then PInf else NInf)"
| "js_mul NInf (Fin y) = (if y = 0 then NaN else if 0 < y then NInf else PInf)"
| "js_mul PInf PInf = PInf"
| "js_mul NInf NInf = PInf"
| "js_mul PInf NInf = NInf"
| "js_mul NInf PInf = NInf"

fun js_div :: "jsnum \<Rightarrow> jsnum \<Rightarrow> jsnum" where
  "js_div (Fin x) (Fin y) =
     (if y \<noteq> 0 then Fin (x / y)
      else if x = 0 then NaN else if 0 < x then PInf else NInf)"
| "js_div NaN _ = NaN"
| "js_div _ NaN = NaN"
| "js_div (Fin x) PInf = Fin 0"
| "js_div (Fin x) NInf = Fin 0"
| "js_div PInf (Fin y) = (if 0 \<le> y then PInf else NInf)"
| "js_div NInf (Fin y) = (if 0 \<le> y then NInf else PInf)"
| "js_div PInf PInf = NaN"
| "js_div PInf NInf = NaN"
| "js_div NInf PInf = NaN"
| "js_div NInf NInf = NaN"

text \<open>\<open>a <= b\<close>, \<open>a >= b\<close> and \<open>a === b\<close>: false as soon as one side is \<open>NaN\<close>.\<close>

fun js_le :: "jsnum \<Rightarrow> jsnum \<Rightarrow> bool" where
  "js_le (Fin x) (Fin y) = (x \<le> y)"
| "js_le NaN _ = False"
| "js_le _ NaN = False"
| "js_le NInf _ = True"
| "js_le _ PInf = True"
| "js_le PInf _ = False"
| "js_le _ NInf = False"

definition js_ge :: "jsnum \<Rightarrow> jsnum \<Rightarrow> bool" where
  "js_ge a b = js_le b a"

definition js_eq :: "jsnum \<Rightarrow> jsnum \<Rightarrow> bool" where
  "js_eq a b \<longleftrightarrow> a \<noteq> NaN \<and> a = b"

text \<open>\<open>!x\<close> on a number: true for zero and for \<open>NaN\<close>.\<close>

definition js_not :: "jsnum \<Rightarrow> bool" where
  "js_not x \<longleftrightarrow> x = Fin 0 \<or> x = NaN"

text \<open>The number that a length (a non-negative integer) is.\<close>

definition num :: "nat \<Rightarrow> jsnum" where
  "num n = Fin (real n)"

section \<open>The subtitle segmenter\<close>

record SubtitleSegment =
  seg_text :: jsstring
  seg_start :: jsnum
  seg_end :: jsnum

text \<open>\<open>fullText.replace(/\s+/g, ' ').trim()\<close>\<close>

definition cleanText :: "jsstring \<Rightarrow> jsstring" where
  "cleanText fullText = trim (replace_ws fullText)"

text \<open>
  The body of \<open>words.forEach\<close>, on the pair of \<open>chunks\<close> and \<open>currentChunk\<close>.
\<close>

definition chunk_step ::
  "jsstring list \<times> jsstring list \<Rightarrow> jsstring \<Rightarrow> jsstring list \<times> jsstring list" where
  "chunk_step st word =
     (let chunks = fst st;
          currentChunk = snd st @ [word];
          chunkString = join currentChunk
      in if (25 < length chunkString \<or> endsWithPunctuation word) \<and> 2 \<le> length currentChunk
         then (chunks @ [chunkString], [])
         else if 6 \<le> length currentChunk
         then (chunks @ [chunkString], [])
         else (chunks, currentChunk))"

text \<open>The loop, followed by the push of what is left in \<open>currentChunk\<close>.\<close>

definition make_chunks :: "jsstring list \<Rightarrow> jsstring list" where
  "make_chunks words =
     (let st = foldl chunk_step ([], []) words
      in if 0 < length (snd st) then fst st @ [join (snd st)] else fst st)"

text \<open>
  \<open>chunks.map(...)\<close> with the running \<open>currentTime\<close>, which the callback updates.
\<close>

fun assign_times :: "nat \<Rightarrow> jsnum \<Rightarrow> jsnum \<Rightarrow> jsstring list \<Rightarrow> SubtitleSegment list" where
  "assign_times totalChars totalDuration currentTime [] = []"
| "assign_times totalChars totalDuration currentTime (chunk # rest) =
     (let chunkLen = length chunk;
          duration = js_mul (js_div (num chunkLen) (num totalChars)) totalDuration;
          segment = \<lparr>seg_text = chunk, seg_start = currentTime,
                     seg_end = js_add currentTime duration\<rparr>
      in segment # assign_times totalChars totalDuration (js_add currentTime duration) rest)"

definition createSmartSubtitles :: "jsstring \<Rightarrow> jsnum \<Rightarrow> SubtitleSegment list" where
  "createSmartSubtitles fullText totalDuration =
     (let clean = cleanText fullText;
          words = split space clean;
          chunks = make_chunks words;
          totalChars = length clean
      in assign_times totalChars totalDuration (Fin 0) chunks)"

text \<open>
  The closing rule as the specification words it: a natural break, otherwise a forced
  break; a closed chunk goes to the output list and the accumulator is reset.
\<close>

definition natural_break :: "jsstring list \<Rightarrow> jsstring \<Rightarrow> bool" where
  "natural_break chunk word \<longleftrightarrow>
     2 \<le> length chunk \<and>
     (25 < length (join chunk) \<or>
      (word \<noteq> [] \<and> last word \<in> {of_char CHR ''.'', of_char CHR ''!'', of_char CHR ''?''}))"

definition forced_break :: "jsstring list \<Rightarrow> bool" where
  "forced_break chunk \<longleftrightarrow> 6 \<le> length chunk"

definition spec_chunk_step ::
  "jsstring list \<times> jsstring list \<Rightarrow> jsstring \<Rightarrow> jsstring list \<times> jsstring list" where
  "spec_chunk_step st word =
     (case st of (output, accumulator) \<Rightarrow>
        (let chunk = accumulator @ [word]
         in if natural_break chunk word then (output @ [join chunk], [])
            else if forced_break chunk then (output @ [join chunk], [])
            else (output, chunk)))"

text \<open>The number of words of a chunk, which is a string of words joined by spaces.\<close>

definition word_count :: "jsstring \<Rightarrow> nat" where
  "word_count chunk = length (split space chunk)"

text \<open>The strict order on numbers, false on \<open>NaN\<close>; a positive number is one above zero.\<close>

fun js_lt :: "jsnum \<Rightarrow> jsnum \<Rightarrow> bool" where
  "js_lt (Fin x) (Fin y) = (x < y)"
| "js_lt NaN _ = False"
| "js_lt _ NaN = False"
| "js_lt _ NInf = False"
| "js_lt PInf _ = False"
| "js_lt NInf _ = True"
| "js_lt _ PInf = True"

section \<open>The active caption\<close>

record VideoData =
  sequence :: "jsstring list"
  audioUrl :: jsstring
  subtitles :: "SubtitleSegment list"

text \<open>
  \<open>videoData\<close> is a state that is \<open>null\<close> until a clip exists, and \<open>currentTime\<close> a number.
  The first line returns the empty string when there is no video data and when
  \<open>!currentTime\<close> holds; \<open>find\<close> gives the first segment that passes the test.
\<close>

definition getCurrentSubtitle :: "VideoData option \<Rightarrow> jsnum \<Rightarrow> jsstring" where
  "getCurrentSubtitle videoData currentTime =
     (case videoData of
        None \<Rightarrow> []
      | Some vd \<Rightarrow>
          if js_not currentTime then []
          else (case find (\<lambda>seg. js_ge currentTime (seg_start seg) \<and>
                                  js_le currentTime (seg_end seg)) (subtitles vd) of
                  None \<Rightarrow> []
                | Some currentSeg \<Rightarrow> seg_text currentSeg))"

section \<open>The duration of the audio\<close>

text \<open>
  The two assignments of \<open>generateClip\<close> to \<open>audioDurationSeconds\<close>, from the length of
  the PCM data; the second one overwrites the first.
\<close>

definition audioDurationSeconds :: "nat \<Rightarrow> jsnum" where
  "audioDurationSeconds pcmLength =
     (let sampleRate = num 24000;
          numChannels = num 1;
          bytesPerSample = num 2;
          duration = js_div (num pcmLength)
                       (js_mul (js_mul sampleRate numChannels) bytesPerSample);
          duration = js_div (num pcmLength) (num 48000)
      in duration)"

section \<open>The WAV header\<close>

type_synonym byte = "8 word"

text \<open>
  The fields of the header are the integer values of the numbers that are written, so the
  arithmetic of \<open>createWavHeader\<close> is modelled with the rounding of doubles: the result of
  an operation is the exact result rounded to the nearest double, ties to the even
  significand. A double has 53 significant bits; the least exponent of a normal double is
  \<open>-1022\<close>, and a result of magnitude \<open>2^1024\<close> or more is an infinity.
\<close>

definition round_even :: "real \<Rightarrow> int" where
  "round_even q =
     (let f = \<lfloor>q\<rfloor>; r = q - of_int f
      in if r < 1 / 2 then f else if 1 / 2 < r then f + 1 else if even f then f else f + 1)"

definition round_double :: "real \<Rightarrow> jsnum" where
  "round_double x =
     (if x = 0 then Fin 0
      else let u = 2 powr of_int (max \<lfloor>log 2 \<bar>x\<bar>\<rfloor> (- 1022) - 52);
               y = of_int (round_even (x / u)) * u
           in if 2 ^ 1024 \<le> \<bar>y\<bar> then (if 0 < y then PInf else NInf) else Fin y)"

definition fl :: "jsnum \<Rightarrow> jsnum" where
  "fl v = (case v of Fin x \<Rightarrow> round_double x | _ \<Rightarrow> v)"

definition fl_add :: "jsnum \<Rightarrow> jsnum \<Rightarrow> jsnum" where
  "fl_add a b = fl (js_add a b)"

definition fl_mul :: "jsnum \<Rightarrow> jsnum \<Rightarrow> jsnum" where
  "fl_mul a b = fl (js_mul a b)"

definition fl_div :: "jsnum \<Rightarrow> jsnum \<Rightarrow> jsnum" where
  "fl_div a b = fl (js_div a b)"

text \<open>
  The conversion of a number to an unsigned integer of a \<open>DataView\<close> setter: the integer
  part, modulo the size of the field; \<open>NaN\<close> and the infinities give zero.
\<close>

definition to_integer :: "jsnum \<Rightarrow> int" where
  "to_integer v = (case v of Fin x \<Rightarrow> (if 0 \<le> x then \<lfloor>x\<rfloor> else \<lceil>x\<rceil>) | _ \<Rightarrow> 0)"

definition to_uint8 :: "jsnum \<Rightarrow> 8 word" where
  "to_uint8 v = word_of_int (to_integer v)"

definition to_uint16 :: "jsnum \<Rightarrow> 16 word" where
  "to_uint16 v = word_of_int (to_integer v)"

definition to_uint32 :: "jsnum \<Rightarrow> 32 word" where
  "to_uint32 v = word_of_int (to_integer v)"

text \<open>The bytes of a field, least significant first.\<close>

definition bytes16 :: "16 word \<Rightarrow> byte list" where
  "bytes16 w = [ucast w, ucast (drop_bit 8 w)]"

definition bytes32 :: "32 word \<Rightarrow> byte list" where
  "bytes32 w = [ucast w, ucast (drop_bit 8 w), ucast (drop_bit 16 w), ucast (drop_bit 24 w)]"

text \<open>
  The setters of a \<open>DataView\<close> over the whole buffer. A write that does not fit in the
  buffer throws a \<open>RangeError\<close>, which is \<open>None\<close>.
\<close>

fun write_bytes :: "nat \<Rightarrow> byte list \<Rightarrow> byte list \<Rightarrow> byte list" where
  "write_bytes byteOffset [] buf = buf"
| "write_bytes byteOffset (b # bs) buf = write_bytes (Suc byteOffset) bs (buf[byteOffset := b])"

definition setUint8 :: "nat \<Rightarrow> jsnum \<Rightarrow> byte list \<Rightarrow> byte list option" where
  "setUint8 byteOffset v buf =
     (if byteOffset + 1 \<le> length buf then Some (buf[byteOffset := to_uint8 v]) else None)"

definition setUint16 :: "nat \<Rightarrow> jsnum \<Rightarrow> bool \<Rightarrow> byte list \<Rightarrow> byte list option" where
  "setUint16 byteOffset v littleEndian buf =
     (if byteOffset + 2 \<le> length buf
      then Some (write_bytes byteOffset
                   (if littleEndian then bytes16 (to_uint16 v) else rev (bytes16 (to_uint16 v))) buf)
      else None)"

definition setUint32 :: "nat \<Rightarrow> jsnum \<Rightarrow> bool \<Rightarrow> byte list \<Rightarrow> byte list option" where
  "setUint32 byteOffset v littleEndian buf =
     (if byteOffset + 4 \<le> length buf
      then Some (write_bytes byteOffset
                   (if littleEndian then bytes32 (to_uint32 v) else rev (bytes32 (to_uint32 v))) buf)
      else None)"

text \<open>\<open>getUint32(byteOffset, true)\<close>, to read a field back.\<close>

definition getUint32 :: "byte list \<Rightarrow> nat \<Rightarrow> 32 word option" where
  "getUint32 buf byteOffset =
     (if byteOffset + 4 \<le> length buf
      then Some (ucast (buf ! byteOffset) OR push_bit 8 (ucast (buf ! (byteOffset + 1))) OR
                 push_bit 16 (ucast (buf ! (byteOffset + 2))) OR
                 push_bit 24 (ucast (buf ! (byteOffset + 3))))
      else None)"

text \<open>\<open>writeString\<close>: one \<open>setUint8\<close> for each code unit of the string, from \<open>offset\<close> on.\<close>

fun writeString :: "nat \<Rightarrow> jsstring \<Rightarrow> byte list \<Rightarrow> byte list option" where
  "writeString offset [] buf = Some buf"
| "writeString offset (c # cs) buf =
     do { buf' \<leftarrow> setUint8 offset (num (unat c)) buf; writeString (Suc offset) cs buf' }"

definition createWavHeader :: "jsnum \<Rightarrow> jsnum \<Rightarrow> jsnum \<Rightarrow> jsnum \<Rightarrow> byte list option" where
  "createWavHeader dataLength sampleRate numChannels bitsPerSample =
     do {
       header \<leftarrow> Some (replicate 44 0);
       header \<leftarrow> writeString 0 (js ''RIFF'') header;
       header \<leftarrow> setUint32 4 (fl_add (num 36) dataLength) True header;
       header \<leftarrow> writeString 8 (js ''WAVE'') header;
       header \<leftarrow> writeString 12 (js ''fmt '') header;
       header \<leftarrow> setUint32 16 (num 16) True header;
       header \<leftarrow> setUint16 20 (num 1) True header;
       header \<leftarrow> setUint16 22 numChannels True header;
       header \<leftarrow> setUint32 24 sampleRate True header;
       header \<leftarrow> setUint32 28
         (fl_mul (fl_mul sampleRate numChannels) (fl_div bitsPerSample (num 8))) True header;
       header \<leftarrow> setUint16 32 (fl_mul numChannels (fl_div bitsPerSample (num 8))) True header;
       header \<leftarrow> setUint16 34 bitsPerSample True header;
       header \<leftarrow> writeString 36 (js ''data'') header;
       header \<leftarrow> setUint32 40 dataLength True header;
       Some header
     }"

text \<open>The call with the default parameters: 24000 Hz, one channel, 16 bits.\<close>

definition createWavHeader_default :: "jsnum \<Rightarrow> byte list option" where
  "createWavHeader_default dataLength = createWavHeader dataLength (num 24000) (num 1) (num 16)"

text \<open>A 32-bit field of a header that was built, read back as a natural number.\<close>

definition header_field :: "nat \<Rightarrow> byte list option \<Rightarrow> nat option" where
  "header_field byteOffset header =
     (case header of None \<Rightarrow> None | Some h \<Rightarrow> map_option unat (getUint32 h byteOffset))"

text \<open>
  A string without two spaces in a row, which is what \<open>replace_ws\<close> produces; used to show
  that the words of a cleaned text are not empty.
\<close>

fun no_double_space :: "jsstring \<Rightarrow> bool" where
  "no_double_space (a # b # cs) = (\<not> (a = space \<and> b = space) \<and> no_double_space (b # cs))"
| "no_double_space _ = True"

section \<open>Splitting and joining\<close>

lemmas eval_defs = createSmartSubtitles_def cleanText_def trim_def js_def is_ws_def space_def
  make_chunks_def chunk_step_def endsWithPunctuation_def num_def Let_def

lemma split_not_Nil: "split d s \<noteq> []"
  by (induction s) (auto split: list.splits)

lemma join_Cons: "ws \<noteq> [] \<Longrightarrow> join (w # ws) = w @ space # join ws"
  by (cases ws) simp_all

lemma join_split: "join (split space s) = s"
proof (induction s)
  case Nil
  show ?case by simp
next
  case (Cons c cs)
  show ?case
  proof (cases "c = space")
    case True
    with Cons show ?thesis by (simp add: join_Cons split_not_Nil)
  next
    case False
    obtain w ws where sp: "split space cs = w # ws"
      using split_not_Nil [of space cs] by (cases "split space cs") auto
    with Cons False show ?thesis by (cases ws) auto
  qed
qed

lemma split_no_sep: "w \<in> set (split d s) \<Longrightarrow> d \<notin> set w"
  by (induction s arbitrary: w) (auto split: if_splits list.splits)

lemma split_append_sep:
  "d \<notin> set w \<Longrightarrow> split d (w @ d # rest) = w # split d rest"
  by (induction w) auto

lemma split_no_sep_id: "d \<notin> set w \<Longrightarrow> split d w = [w]"
  by (induction w) auto

lemma split_join:
  "ws \<noteq> [] \<Longrightarrow> \<forall>w\<in>set ws. space \<notin> set w \<Longrightarrow> split space (join ws) = ws"
proof (induction ws rule: join.induct)
  case 1
  then show ?case by simp
next
  case (2 w)
  then show ?case by (simp add: split_no_sep_id)
next
  case (3 w v ws)
  then show ?case by (simp add: split_append_sep)
qed

lemma join_append:
  "xs \<noteq> [] \<Longrightarrow> ys \<noteq> [] \<Longrightarrow> join (xs @ ys) = join xs @ space # join ys"
  by (induction xs rule: join.induct) (auto simp: join_Cons)

lemma join_concat:
  "\<forall>g\<in>set gs. g \<noteq> [] \<Longrightarrow> join (map join gs) = join (concat gs)"
proof (induction gs)
  case Nil
  show ?case by simp
next
  case (Cons g gs)
  show ?case
  proof (cases "gs = []")
    case True
    then show ?thesis by simp
  next
    case False
    with Cons.prems have ne: "concat gs \<noteq> []" by (cases gs) auto
    from False Cons show ?thesis by (simp add: join_Cons join_append ne)
  qed
qed

lemma length_join:
  "ws \<noteq> [] \<Longrightarrow> Suc (length (join ws)) = sum_list (map length ws) + length ws"
  by (induction ws rule: join.induct) auto

lemma sum_length_chunks:
  "\<forall>g\<in>set gs. g \<noteq> [] \<Longrightarrow>
   sum_list (map length (map join gs)) + length gs
     = sum_list (map length (concat gs)) + length (concat gs)"
proof (induction gs)
  case Nil
  show ?case by simp
next
  case (Cons g gs)
  then have "g \<noteq> []" by simp
  from length_join [OF this] Cons show ?case by simp
qed

lemma foldl_chunk_step_inv:
  "\<exists>gs cur. foldl chunk_step ([], []) ws = (map join gs, cur) \<and> concat gs @ cur = ws \<and>
     (\<forall>g\<in>set gs. 2 \<le> length g \<and> length g \<le> 6) \<and> length cur < 6"
proof (induction ws rule: rev_induct)
  case Nil
  show ?case by simp
next
  case (snoc w ws)
  then obtain gs cur where st: "foldl chunk_step ([], []) ws = (map join gs, cur)"
    and cc: "concat gs @ cur = ws"
    and gs: "\<forall>g\<in>set gs. 2 \<le> length g \<and> length g \<le> 6" and cur: "length cur < 6"
    by blast
  let ?c = "cur @ [w]"
  show ?case
  proof (cases "((25 < length (join ?c) \<or> endsWithPunctuation w) \<and> 2 \<le> length ?c) \<or> 6 \<le> length ?c")
    case True
    then have "chunk_step (map join gs, cur) w = (map join (gs @ [?c]), [])"
      by (auto simp: chunk_step_def Let_def)
    moreover have "2 \<le> length ?c" using True by auto
    moreover have "length ?c \<le> 6" using cur by simp
    ultimately show ?thesis using st cc gs
      by (intro exI [of _ "gs @ [?c]"] exI [of _ "[]"]) auto
  next
    case False
    then have "chunk_step (map join gs, cur) w = (map join gs, ?c)"
      by (auto simp: chunk_step_def Let_def)
    moreover have "length ?c < 6" using False by auto
    ultimately show ?thesis using st cc gs
      by (intro exI [of _ gs] exI [of _ ?c]) auto
  qed
qed

lemma make_chunks_groups:
  assumes "ws \<noteq> []"
  shows "\<exists>gs. make_chunks ws = map join gs \<and> concat gs = ws \<and> gs \<noteq> [] \<and>
     (\<forall>g\<in>set gs. 1 \<le> length g \<and> length g \<le> 6) \<and> (\<forall>g\<in>set (butlast gs). 2 \<le> length g)"
proof -
  obtain gs cur where st: "foldl chunk_step ([], []) ws = (map join gs, cur)"
    and cc: "concat gs @ cur = ws"
    and gs: "\<forall>g\<in>set gs. 2 \<le> length g \<and> length g \<le> 6" and cur: "length cur < 6"
    using foldl_chunk_step_inv [of ws] by blast
  show ?thesis
  proof (cases "cur = []")
    case True
    with st have "make_chunks ws = map join gs" by (simp add: make_chunks_def)
    moreover from True cc assms have "gs \<noteq> []" by auto
    moreover have "\<forall>g\<in>set (butlast gs). 2 \<le> length g"
      using gs by (auto dest: in_set_butlastD)
    ultimately show ?thesis using True cc gs by (intro exI [of _ gs]) auto
  next
    case False
    with st have "make_chunks ws = map join (gs @ [cur])" by (simp add: make_chunks_def)
    then show ?thesis using False cc gs cur
      by (intro exI [of _ "gs @ [cur]"]) (auto simp: Suc_le_eq)
  qed
qed

section \<open>The cleaned text has no empty word\<close>

lemma is_ws_space: "is_ws space"
  by (simp add: is_ws_def space_def)

lemma replace_ws_Nil_iff: "replace_ws s = [] \<longleftrightarrow> s = []"
  by (cases s) auto

lemma hd_replace_ws: "s \<noteq> [] \<Longrightarrow> \<not> is_ws (hd s) \<Longrightarrow> hd (replace_ws s) = hd s"
  by (cases s) auto

lemma no_double_space_Cons:
  "no_double_space (a # r) \<longleftrightarrow> (a = space \<longrightarrow> r = [] \<or> hd r \<noteq> space) \<and> no_double_space r"
  by (cases r) auto

lemma no_double_space_replace_ws: "no_double_space (replace_ws t)"
proof (induction t rule: replace_ws.induct)
  case 1
  show ?case by simp
next
  case (2 c cs)
  show ?case
  proof (cases "is_ws c")
    case True
    let ?d = "dropWhile is_ws cs"
    have "?d = [] \<or> hd (replace_ws ?d) \<noteq> space"
    proof (cases "?d = []")
      case False
      then have "\<not> is_ws (hd ?d)" by (rule hd_dropWhile)
      with False show ?thesis using is_ws_space by (auto simp: hd_replace_ws)
    qed simp
    with True 2 show ?thesis by (auto simp: no_double_space_Cons replace_ws_Nil_iff)
  next
    case False
    then have "c \<noteq> space" using is_ws_space by auto
    with False 2 show ?thesis by (simp add: no_double_space_Cons)
  qed
qed

lemma no_double_space_suffix: "no_double_space (xs @ ys) \<Longrightarrow> no_double_space ys"
  by (induction xs) (auto simp: no_double_space_Cons)

lemma no_double_space_prefix: "no_double_space (xs @ ys) \<Longrightarrow> no_double_space xs"
  by (induction xs) (auto simp: no_double_space_Cons hd_append split: if_splits)

lemma trim_prefix: "\<exists>zs. dropWhile is_ws s = trim s @ zs"
proof -
  let ?u = "dropWhile is_ws s"
  have "?u = rev (takeWhile is_ws (rev ?u) @ dropWhile is_ws (rev ?u))"
    by (simp only: takeWhile_dropWhile_id rev_rev_ident)
  also have "\<dots> = trim s @ rev (takeWhile is_ws (rev ?u))"
    by (simp only: rev_append trim_def)
  finally show ?thesis by blast
qed

lemma no_double_space_trim:
  assumes "no_double_space s"
  shows "no_double_space (trim s)"
proof -
  have "no_double_space (takeWhile is_ws s @ dropWhile is_ws s)" using assms by simp
  then have "no_double_space (dropWhile is_ws s)" by (rule no_double_space_suffix)
  moreover obtain zs where "dropWhile is_ws s = trim s @ zs" using trim_prefix by blast
  ultimately show ?thesis using no_double_space_prefix by metis
qed

lemma trim_ends:
  assumes "trim s \<noteq> []"
  shows "\<not> is_ws (hd (trim s))" and "\<not> is_ws (last (trim s))"
proof -
  obtain zs where u: "dropWhile is_ws s = trim s @ zs" using trim_prefix by blast
  with assms have ne: "dropWhile is_ws s \<noteq> []" by auto
  have "hd (trim s) = hd (dropWhile is_ws s)" using u assms by simp
  with hd_dropWhile [OF ne] show "\<not> is_ws (hd (trim s))" by simp
  let ?r = "dropWhile is_ws (rev (dropWhile is_ws s))"
  from assms have r: "?r \<noteq> []" by (simp add: trim_def)
  have "last (trim s) = hd ?r" using r by (simp add: trim_def last_rev)
  with hd_dropWhile [OF r] show "\<not> is_ws (last (trim s))" by simp
qed

lemma split_no_empty_word:
  "no_double_space s \<Longrightarrow> s \<noteq> [] \<Longrightarrow> hd s \<noteq> space \<Longrightarrow> last s \<noteq> space \<Longrightarrow>
   [] \<notin> set (split space s)"
proof (induction "length s" arbitrary: s rule: less_induct)
  case less
  from less.prems obtain c cs where s: "s = c # cs" and c: "c \<noteq> space" by (cases s) auto
  show ?case
  proof (cases cs)
    case Nil
    with s c show ?thesis by simp
  next
    case (Cons c' cs')
    show ?thesis
    proof (cases "c' = space")
      case False
      have "[] \<notin> set (split space cs)"
        using less.prems s Cons False by (intro less.hyps) (auto simp: no_double_space_Cons)
      with s c show ?thesis by (auto split: list.splits)
    next
      case True
      with less.prems s Cons have ne: "cs' \<noteq> []" by auto
      have "[] \<notin> set (split space cs')"
        using less.prems s Cons True ne by (intro less.hyps) (auto simp: no_double_space_Cons)
      with s c Cons True show ?thesis by (auto split: list.splits)
    qed
  qed
qed

lemma cleanText_words_nonempty:
  assumes "cleanText t \<noteq> []"
  shows "[] \<notin> set (split space (cleanText t))"
proof -
  have "no_double_space (cleanText t)"
    unfolding cleanText_def by (intro no_double_space_trim no_double_space_replace_ws)
  moreover have "hd (cleanText t) \<noteq> space" "last (cleanText t) \<noteq> space"
    using trim_ends [of "replace_ws t"] assms is_ws_space unfolding cleanText_def by auto
  ultimately show ?thesis using assms by (intro split_no_empty_word)
qed

lemma join_Nil_iff: "join ws = [] \<longleftrightarrow> (ws = [] \<or> ws = [[]])"
  by (induction ws rule: join.induct) auto

section \<open>Chunks and their words\<close>

lemma seg_text_assign_times: "map seg_text (assign_times T D c chunks) = chunks"
  by (induction chunks arbitrary: c) (simp_all add: Let_def)

lemma length_assign_times: "length (assign_times T D c chunks) = length chunks"
  by (induction chunks arbitrary: c) (simp_all add: Let_def)

lemma createSmartSubtitles_texts:
  "map seg_text (createSmartSubtitles t d) = make_chunks (split space (cleanText t))"
  by (simp add: createSmartSubtitles_def Let_def seg_text_assign_times)

lemma length_createSmartSubtitles:
  "length (createSmartSubtitles t d) = length (make_chunks (split space (cleanText t)))"
  by (simp add: createSmartSubtitles_def Let_def length_assign_times)

lemma chunks_of_text:
  "\<exists>gs. make_chunks (split space s) = map join gs \<and> concat gs = split space s \<and> gs \<noteq> [] \<and>
     (\<forall>g\<in>set gs. 1 \<le> length g \<and> length g \<le> 6) \<and> (\<forall>g\<in>set (butlast gs). 2 \<le> length g)"
  by (rule make_chunks_groups) (rule split_not_Nil)

lemma chunks_nonempty:
  assumes "cleanText t \<noteq> []"
  shows "\<forall>c\<in>set (make_chunks (split space (cleanText t))). c \<noteq> []"
proof
  fix c assume c: "c \<in> set (make_chunks (split space (cleanText t)))"
  obtain gs where mk: "make_chunks (split space (cleanText t)) = map join gs"
    and cc: "concat gs = split space (cleanText t)"
    and ne: "\<forall>g\<in>set gs. 1 \<le> length g \<and> length g \<le> 6"
    using chunks_of_text by blast
  from c obtain g where g: "g \<in> set gs" and cg: "c = join g" by (auto simp: mk)
  with ne have "g \<noteq> []" by auto
  moreover have "[] \<notin> set g"
    using cleanText_words_nonempty [OF assms] g cc [symmetric] by auto
  ultimately show "c \<noteq> []" by (auto simp: cg join_Nil_iff)
qed

lemma word_count_group:
  assumes "g \<in> set gs" and "concat gs = split space s" and "g \<noteq> []"
  shows "word_count (join g) = length g"
proof -
  have "\<forall>w\<in>set g. space \<notin> set w"
  proof
    fix w assume "w \<in> set g"
    with assms(1) have "w \<in> set (concat gs)" by auto
    with assms(2) show "space \<notin> set w" by (simp add: split_no_sep)
  qed
  with assms(3) show ?thesis by (simp add: word_count_def split_join)
qed

lemma createSmartSubtitles_empty:
  assumes "cleanText t = []"
  shows "createSmartSubtitles t d = [\<lparr>seg_text = [], seg_start = Fin 0, seg_end = NaN\<rparr>]"
proof -
  have "make_chunks [[]] = [[]]"
    by (simp add: make_chunks_def chunk_step_def endsWithPunctuation_def)
  with assms show ?thesis
    by (cases d) (simp_all add: createSmartSubtitles_def num_def)
qed

lemma replace_ws_all_ws:
  assumes "\<forall>c\<in>set t. is_ws c"
  shows "replace_ws t = (if t = [] then [] else [space])"
proof (cases t)
  case Nil
  then show ?thesis by simp
next
  case (Cons c cs)
  with assms have "is_ws c" and "\<forall>x\<in>set cs. is_ws x" by auto
  then have c: "is_ws c" and d: "dropWhile is_ws cs = []" by simp_all
  show ?thesis unfolding Cons by (simp add: c d)
qed

lemma cleanText_all_ws: "\<forall>c\<in>set t. is_ws c \<Longrightarrow> cleanText t = []"
  by (simp add: replace_ws_all_ws cleanText_def trim_def is_ws_space)

section \<open>Times of the segments\<close>

lemma assign_times_last_end:
  "T \<noteq> 0 \<Longrightarrow> chunks \<noteq> [] \<Longrightarrow>
   seg_end (last (assign_times T (Fin d) (Fin c) chunks))
     = Fin (c + real (sum_list (map length chunks)) / real T * d)"
proof (induction chunks arbitrary: c)
  case Nil
  then show ?case by simp
next
  case (Cons ch rest)
  show ?case
  proof (cases "rest = []")
    case True
    with Cons.prems show ?thesis by (simp add: num_def)
  next
    case False
    then have ne: "assign_times T (Fin d) (Fin c') rest \<noteq> []" for c'
      by (cases rest) (simp_all add: Let_def)
    from Cons.prems False Cons.IH [of "c + real (length ch) / real T * d"]
    show ?thesis by (simp add: num_def ne Let_def add_divide_distrib distrib_right)
  qed
qed

lemma chunk_lengths_total:
  assumes "make_chunks (split space s) = map join gs" and "concat gs = split space s"
    and "\<forall>g\<in>set gs. g \<noteq> []"
  shows "sum_list (map length (make_chunks (split space s))) + length gs = Suc (length s)"
proof -
  have "Suc (length (join (split space s)))
      = sum_list (map length (split space s)) + length (split space s)"
    by (rule length_join) (rule split_not_Nil)
  with sum_length_chunks [OF assms(3)] assms(1,2) show ?thesis by (simp add: join_split)
qed

lemma length_le_sum_lengths:
  "\<forall>c\<in>set cs. c \<noteq> [] \<Longrightarrow> length cs \<le> sum_list (map length cs)"
proof (induction cs)
  case Nil
  show ?case by simp
next
  case (Cons a cs)
  then have "1 \<le> length a" by (cases a) auto
  with Cons show ?case by simp
qed

lemma duration_positive:
  assumes "T \<noteq> 0" and "ch \<noteq> []" and "js_lt (Fin 0) D"
  shows "js_lt (Fin 0) (js_mul (js_div (num (length ch)) (num T)) D)"
  using assms by (cases D) (simp_all add: num_def)

lemma add_positive:
  assumes "js_le (Fin 0) c" and "js_lt (Fin 0) x"
  shows "js_le c (js_add c x)" and "js_le (Fin 0) (js_add c x)" and "js_add c x \<noteq> NaN"
  using assms by (cases c; cases x; simp)+

lemma assign_times_contiguous:
  assumes "T \<noteq> 0" and "js_lt (Fin 0) D"
  shows "js_le (Fin 0) c \<Longrightarrow> \<forall>ch\<in>set chunks. ch \<noteq> [] \<Longrightarrow>
    (let segs = assign_times T D c chunks
     in (segs \<noteq> [] \<longrightarrow> seg_start (segs ! 0) = c) \<and>
        (\<forall>i<length segs. js_le (seg_start (segs ! i)) (seg_end (segs ! i))) \<and>
        (\<forall>i. Suc i < length segs \<longrightarrow> js_eq (seg_end (segs ! i)) (seg_start (segs ! Suc i))))"
proof (induction chunks arbitrary: c)
  case Nil
  show ?case by simp
next
  case (Cons ch rest)
  let ?x = "js_mul (js_div (num (length ch)) (num T)) D"
  let ?c' = "js_add c ?x"
  let ?rest = "assign_times T D ?c' rest"
  let ?seg = "\<lparr>seg_text = ch, seg_start = c, seg_end = ?c'\<rparr>"
  have x: "js_lt (Fin 0) ?x" using assms Cons.prems by (intro duration_positive) auto
  note ap = add_positive [OF Cons.prems(1) x]
  have IH: "(?rest \<noteq> [] \<longrightarrow> seg_start (?rest ! 0) = ?c') \<and>
        (\<forall>i<length ?rest. js_le (seg_start (?rest ! i)) (seg_end (?rest ! i))) \<and>
        (\<forall>i. Suc i < length ?rest \<longrightarrow> js_eq (seg_end (?rest ! i)) (seg_start (?rest ! Suc i)))"
    using Cons.IH [OF ap(2)] Cons.prems(2) by (simp add: Let_def)
  have segs: "assign_times T D c (ch # rest) = ?seg # ?rest" by (simp add: Let_def)
  have "js_le (seg_start ((?seg # ?rest) ! i)) (seg_end ((?seg # ?rest) ! i))"
    if "i < length (?seg # ?rest)" for i
    using that IH ap(1) by (cases i) auto
  moreover have "js_eq (seg_end ((?seg # ?rest) ! i)) (seg_start ((?seg # ?rest) ! Suc i))"
    if "Suc i < length (?seg # ?rest)" for i
  proof (cases i)
    case 0
    with that have "?rest \<noteq> []" by auto
    with IH 0 ap(3) show ?thesis by (simp add: js_eq_def)
  next
    case (Suc j)
    with that IH show ?thesis by simp
  qed
  ultimately show ?case unfolding segs Let_def by simp
qed

lemma endsWithPunctuation_last:
  "endsWithPunctuation word \<longleftrightarrow> word \<noteq> [] \<and> last word \<in> {46, 33, 63}"
  by (cases word rule: rev_cases) (auto simp: endsWithPunctuation_def)

lemma find_first:
  assumes "i < length xs" and "P (xs ! i)" and "\<forall>j<i. \<not> P (xs ! j)"
  shows "find P xs = Some (xs ! i)"
  using assms
proof (induction xs arbitrary: i)
  case Nil
  then show ?case by simp
next
  case (Cons x xs)
  show ?case
  proof (cases i)
    case 0
    with Cons.prems show ?thesis by simp
  next
    case (Suc k)
    with Cons.prems have "\<not> P x" by auto
    moreover have "find P xs = Some (xs ! k)"
      using Cons.prems Suc by (intro Cons.IH) auto
    ultimately show ?thesis using Suc by simp
  qed
qed

lemma find_none: "\<forall>i<length xs. \<not> P (xs ! i) \<Longrightarrow> find P xs = None"
  by (auto simp: find_None_iff in_set_conv_nth)

section \<open>Fields of the WAV header\<close>

lemma length_write_bytes: "length (write_bytes off bs buf) = length buf"
  by (induction bs arbitrary: off buf) simp_all

lemma nth_write_bytes:
  "off + length bs \<le> length buf \<Longrightarrow> i < length buf \<Longrightarrow>
   write_bytes off bs buf ! i = (if off \<le> i \<and> i < off + length bs then bs ! (i - off) else buf ! i)"
proof (induction bs arbitrary: off buf)
  case Nil
  then show ?case by auto
next
  case (Cons b bs)
  then show ?case by (auto simp: nth_Cons' nth_list_update Suc_diff_Suc)
qed

lemma writeString_write_bytes:
  "off + length s \<le> length buf \<Longrightarrow>
   writeString off s buf = Some (write_bytes off (map (\<lambda>c. to_uint8 (num (unat c))) s) buf)"
  by (induction s arbitrary: off buf) (simp_all add: setUint8_def)

lemma bytes32_roundtrip:
  "ucast (ucast w :: byte) OR push_bit 8 (ucast (ucast (drop_bit 8 w) :: byte)) OR
   push_bit 16 (ucast (ucast (drop_bit 16 w) :: byte)) OR
   push_bit 24 (ucast (ucast (drop_bit 24 w) :: byte)) = (w :: 32 word)"
  (is "?l = w")
proof (rule bit_word_eqI)
  fix n
  assume "n < LENGTH(32)"
  then consider "n < 8" | "8 \<le> n" "n < 16" | "16 \<le> n" "n < 24" | "24 \<le> n" "n < 32"
    by fastforce
  then show "bit ?l n = bit w n"
    by cases (auto simp: bit_simps)
qed

lemma length_bytes32: "length (bytes32 w) = 4"
  by (simp add: bytes32_def)

lemma length_bytes16: "length (bytes16 w) = 2"
  by (simp add: bytes16_def)

lemma nth_bytes32:
  "bytes32 w ! 0 = ucast w" "bytes32 w ! Suc 0 = ucast (drop_bit 8 w)"
  "bytes32 w ! 2 = ucast (drop_bit 16 w)" "bytes32 w ! 3 = ucast (drop_bit 24 w)"
  by (simp_all add: bytes32_def)

lemma getUint32_write_same:
  assumes "off + 4 \<le> length buf"
  shows "getUint32 (write_bytes off (bytes32 w) buf) off = Some w"
  using assms
  by (simp add: getUint32_def length_write_bytes nth_write_bytes length_bytes32 nth_bytes32
      bytes32_roundtrip)

lemma getUint32_write_other:
  assumes "off + length bs \<le> length buf" and "p + 4 \<le> off \<or> off + length bs \<le> p"
  shows "getUint32 (write_bytes off bs buf) p = getUint32 buf p"
  using assms by (auto simp: getUint32_def length_write_bytes nth_write_bytes)

subsection \<open>Rounding to a double\<close>

text \<open>A natural number below \<open>2^53\<close> is a double: rounding leaves it as it is.\<close>

lemma round_even_of_int: "round_even (of_int m) = m"
  by (simp add: round_even_def)

lemma round_double_nat:
  assumes "n < 2 ^ 53"
  shows "round_double (real n) = Fin (real n)"
proof (cases "n = 0")
  case True
  then show ?thesis by (simp add: round_double_def)
next
  case False
  then have pos: "0 < n" by simp
  define e where "e = \<lfloor>log 2 (real n)\<rfloor>"
  have "log 2 (real n) < real 53" using assms pos by (rule log2_of_power_less)
  then have hi: "e \<le> 52" unfolding e_def by linarith
  have "0 \<le> log 2 (real n)" using pos by simp
  then have lo: "0 \<le> e" unfolding e_def by simp
  define k where "k = nat (52 - e)"
  have k: "of_int (e - 52) = - real k" using hi by (simp add: k_def)
  have u: "2 powr of_int (max e (- 1022) - 52) = inverse ((2::real) ^ k)"
    using lo k by (simp add: max_def powr_minus powr_realpow)
  have q: "real n / inverse ((2::real) ^ k) = of_int (int n * 2 ^ k)"
    by (simp add: field_simps)
  have y: "of_int (round_even (real n / inverse ((2::real) ^ k))) * inverse ((2::real) ^ k) = real n"
    by (simp only: q round_even_of_int) simp
  have "real n < 2 ^ 53" using assms by (simp add: of_nat_less_numeral_power_cancel_iff)
  also have "(2::real) ^ 53 \<le> 2 ^ 1024" by (rule power_increasing) simp_all
  finally have small: "\<not> 2 ^ 1024 \<le> \<bar>real n\<bar>" by simp
  have x: "real n \<noteq> 0" using False by simp
  have "round_double (real n) =
      (let u = 2 powr of_int (max e (- 1022) - 52);
           y = of_int (round_even (real n / u)) * u
       in if 2 ^ 1024 \<le> \<bar>y\<bar> then (if 0 < y then PInf else NInf) else Fin y)"
    unfolding round_double_def e_def using x by (simp only: abs_of_nat if_False)
  also have "\<dots> = Fin (real n)"
    unfolding Let_def u y using small by (simp only: if_False)
  finally show ?thesis .
qed

text \<open>
  Rounding in a known binade, and three values of it: \<open>36 + 2^60\<close> goes down to
  \<open>2^60\<close>, the ties \<open>2^53 + 1\<close> and ten times the double nearest to 0.7 go to the even
  significand.
\<close>

lemma round_double_normal:
  assumes "2 powr of_int e \<le> (x::real)" and "x < 2 powr of_int (e + 1)" and "- 1022 \<le> e"
  shows "round_double x =
     (let u = 2 powr of_int (e - 52); y = of_int (round_even (x / u)) * u
      in if 2 ^ 1024 \<le> \<bar>y\<bar> then (if 0 < y then PInf else NInf) else Fin y)"
proof -
  have "(0::real) < 2 powr of_int e" by simp
  with assms(1) have pos: "0 < x" by linarith
  have "of_int e \<le> log 2 x" using assms(1) pos by (simp add: le_log_iff)
  moreover have "log 2 x < of_int (e + 1)" using assms(2) pos by (simp add: log_less_iff)
  ultimately have "\<lfloor>log 2 x\<rfloor> = e" by linarith
  then have "max \<lfloor>log 2 \<bar>x\<bar>\<rfloor> (- 1022) = e" using pos assms(3) by simp
  then show ?thesis using pos unfolding round_double_def by simp
qed

lemma round_example_1: "round_double (2 ^ 60 + 36) = Fin (2 ^ 60)"
  using round_double_normal [of 60 "2 ^ 60 + 36"]
  by (simp add: round_even_def Let_def)

lemma round_example_2: "round_double (2 ^ 53 + 1) = Fin (2 ^ 53)"
  using round_double_normal [of 53 "2 ^ 53 + 1"]
  by (simp add: round_even_def Let_def)

lemma round_example_3: "round_double (10 * (3152519739159347 / 2 ^ 52)) = Fin 7"
  using round_double_normal [of 2 "10 * (3152519739159347 / 2 ^ 52)"]
  by (simp add: round_even_def Let_def powr_minus)

subsection \<open>The fields that are written\<close>

lemma fl_num: "n < 2 ^ 53 \<Longrightarrow> fl (num n) = num n"
  by (simp add: fl_def num_def round_double_nat)

lemma fl_add_num: "a + b < 2 ^ 53 \<Longrightarrow> fl_add (num a) (num b) = num (a + b)"
  using fl_num [of "a + b"] by (simp add: fl_add_def num_def)

lemma fl_mul_num: "a * b < 2 ^ 53 \<Longrightarrow> fl_mul (num a) (num b) = num (a * b)"
  using fl_num [of "a * b"] by (simp add: fl_mul_def num_def)

lemma fl_div_num:
  assumes "8 dvd b" and "b div 8 < 2 ^ 53"
  shows "fl_div (num b) (num 8) = num (b div 8)"
proof -
  have "real b / 8 = real (b div 8)" using assms(1) by (simp add: real_of_nat_div)
  then have "js_div (num b) (num 8) = num (b div 8)" by (simp add: num_def)
  with fl_num [OF assms(2)] show ?thesis by (simp add: fl_div_def)
qed

lemma length_js: "length (js s) = length s"
  by (simp add: js_def)

lemma createWavHeader_fields:
  "\<exists>h. createWavHeader dl sr ch bps = Some h \<and> length h = 44 \<and>
     getUint32 h 4 = Some (to_uint32 (fl_add (num 36) dl)) \<and>
     getUint32 h 28 = Some (to_uint32 (fl_mul (fl_mul sr ch) (fl_div bps (num 8)))) \<and>
     getUint32 h 40 = Some (to_uint32 dl)"
  by (simp add: createWavHeader_def writeString_write_bytes setUint32_def setUint16_def
      length_write_bytes getUint32_write_same getUint32_write_other length_bytes32
      length_bytes16 length_js)

lemma unat_to_uint32_num: "unat (to_uint32 (num n)) = n mod 2 ^ 32"
proof -
  have "to_uint32 (num n) = word_of_nat n"
    by (simp add: to_uint32_def to_integer_def num_def)
  then show ?thesis by (simp only: unat_of_nat) simp
qed

lemma header_length: "map_option length (createWavHeader dl sr ch bps) = Some 44"
  using createWavHeader_fields [of dl sr ch bps] by auto

lemma header_field_4:
  "36 + n < 2 ^ 53 \<Longrightarrow>
   header_field 4 (createWavHeader (num n) sr ch bps) = Some ((36 + n) mod 2 ^ 32)"
  using createWavHeader_fields [of "num n" sr ch bps]
  by (auto simp: header_field_def fl_add_num unat_to_uint32_num)

lemma header_field_40:
  "header_field 40 (createWavHeader (num n) sr ch bps) = Some (n mod 2 ^ 32)"
  using createWavHeader_fields [of "num n" sr ch bps]
  by (auto simp: header_field_def unat_to_uint32_num)

lemma header_field_28:
  "header_field 28 (createWavHeader dl sr ch bps)
     = Some (unat (to_uint32 (fl_mul (fl_mul sr ch) (fl_div bps (num 8)))))"
  using createWavHeader_fields [of dl sr ch bps]
  by (auto simp: header_field_def)

lemma byte_rate_nat:
  assumes "8 dvd b" and "0 < s * c * (b div 8)" and "s * c * (b div 8) < 2 ^ 32"
  shows "fl_mul (fl_mul (num s) (num c)) (fl_div (num b) (num 8)) = num (s * c * (b div 8))"
proof -
  from assms(2) have "0 < s * c" and "0 < b div 8" by simp_all
  then have "s * c \<le> s * c * (b div 8)" and "b div 8 \<le> s * c * (b div 8)" by simp_all
  with assms(3) have sc: "s * c < 2 ^ 32" and b8: "b div 8 < 2 ^ 32" by linarith+
  have "(2::nat) ^ 32 \<le> 2 ^ 53" by simp
  with sc b8 assms(3) have "s * c < 2 ^ 53" "b div 8 < 2 ^ 53" "s * c * (b div 8) < 2 ^ 53"
    by linarith+
  then show ?thesis using assms(1) by (simp add: fl_mul_num fl_div_num)
qed

lemma default_byte_rate: "header_field 28 (createWavHeader_default (num n)) = Some 48000"
  using byte_rate_nat [of 16 24000 1]
  by (simp add: createWavHeader_default_def header_field_28 unat_to_uint32_num)

section \<open>Properties of the segmenter\<close>

subsection \<open>Text preservation\<close>

text \<open>
  C4: the texts of the segments of \<open>createSmartSubtitles\<close>, joined in order with single
  spaces, are the whitespace-normalized input text: nothing is dropped, added or
  reordered. It holds for every input, so also for those that normalize to a non-empty
  string.
\<close>

theorem text_preserved:
  "join (map seg_text (createSmartSubtitles fullText totalDuration)) = cleanText fullText"
proof -
  obtain gs where mk: "make_chunks (split space (cleanText fullText)) = map join gs"
    and cc: "concat gs = split space (cleanText fullText)"
    and ne: "\<forall>g\<in>set gs. 1 \<le> length g \<and> length g \<le> 6"
    using chunks_of_text by blast
  from ne have "\<forall>g\<in>set gs. g \<noteq> []" by auto
  then have "join (map join gs) = join (concat gs)" by (rule join_concat)
  with mk cc show ?thesis by (simp add: createSmartSubtitles_texts join_split)
qed

theorem text_preserved_witness:
  "cleanText (js ''a b.  c d.'') = js ''a b. c d.'' \<and>
   join (map seg_text (createSmartSubtitles (js ''a b.  c d.'') (Fin 6))) = js ''a b. c d.''"
  using text_preserved [of "js ''a b.  c d.''" "Fin 6"] by (simp add: eval_defs)

subsection \<open>Words per chunk\<close>

text \<open>
  C6: for every input text, every chunk of the greedy pass (the text of a segment) has at
  most 6 words, and every chunk but the last one has at least 2 words.
\<close>

theorem chunk_word_bounds:
  "let chunks = map seg_text (createSmartSubtitles fullText totalDuration)
   in (\<forall>i<length chunks. word_count (chunks ! i) \<le> 6) \<and>
      (\<forall>i. Suc i < length chunks \<longrightarrow> 2 \<le> word_count (chunks ! i))"
proof -
  obtain gs where mk: "make_chunks (split space (cleanText fullText)) = map join gs"
    and cc: "concat gs = split space (cleanText fullText)"
    and ne: "\<forall>g\<in>set gs. 1 \<le> length g \<and> length g \<le> 6"
    and two: "\<forall>g\<in>set (butlast gs). 2 \<le> length g"
    using chunks_of_text by blast
  have wc: "word_count (join (gs ! i)) = length (gs ! i)" if "i < length gs" for i
  proof -
    from that have "gs ! i \<in> set gs" by simp
    moreover with ne have "gs ! i \<noteq> []" by auto
    ultimately show ?thesis using cc by (intro word_count_group)
  qed
  have "word_count (map join gs ! i) \<le> 6" if "i < length gs" for i
    using that wc ne by simp
  moreover have "2 \<le> word_count (map join gs ! i)" if "Suc i < length gs" for i
  proof -
    from that have "butlast gs ! i \<in> set (butlast gs)" by (intro nth_mem) simp
    with that have "gs ! i \<in> set (butlast gs)" by (simp add: nth_butlast)
    with two that wc show ?thesis by simp
  qed
  ultimately show ?thesis by (simp add: createSmartSubtitles_texts mk Let_def)
qed

theorem chunk_word_bounds_witness:
  "map seg_text (createSmartSubtitles (js ''a b. c'') (Fin 6)) = [js ''a b.'', js ''c''] \<and>
   word_count (js ''a b.'') \<le> 6 \<and> 2 \<le> word_count (js ''a b.'') \<and> word_count (js ''c'') \<le> 6"
proof -
  have e: "map seg_text (createSmartSubtitles (js ''a b. c'') (Fin 6)) = [js ''a b.'', js ''c'']"
    by (simp add: eval_defs)
  from chunk_word_bounds [of "js ''a b. c''" "Fin 6"]
  have "(\<forall>i<2. word_count ([js ''a b.'', js ''c''] ! i) \<le> 6) \<and>
        (\<forall>i. Suc i < 2 \<longrightarrow> 2 \<le> word_count ([js ''a b.'', js ''c''] ! i))"
    unfolding e Let_def by simp
  then have upper: "\<And>i. i < 2 \<Longrightarrow> word_count ([js ''a b.'', js ''c''] ! i) \<le> 6"
    and lower: "2 \<le> word_count ([js ''a b.'', js ''c''] ! 0)"
    by auto
  from upper [of 0] upper [of 1] lower e show ?thesis by simp
qed

subsection \<open>The closing rule\<close>

text \<open>
  C7: the body of the loop is the closing rule of the specification: after the word is
  appended, the chunk is closed when it has at least 2 words and is longer than 25
  characters or the word ends in one of \<open>.\<close>, \<open>!\<close>, \<open>?\<close>; otherwise it is closed when it has
  reached 6 words; a closed chunk goes to the end of the output list and the accumulator
  becomes empty.
\<close>

theorem closing_rule: "chunk_step st word = spec_chunk_step st word"
  by (cases st)
    (auto simp: chunk_step_def spec_chunk_step_def natural_break_def forced_break_def
      endsWithPunctuation_last Let_def)

theorem closing_rule_witness:
  "chunk_step ([], [js ''a'']) (js ''b.'') = ([js ''a b.''], []) \<and>
   spec_chunk_step ([], [js ''a'']) (js ''b.'') = ([js ''a b.''], [])"
  using closing_rule [of "([], [js ''a''])" "js ''b.''"]
  by (simp add: chunk_step_def endsWithPunctuation_def js_def space_def)

subsection \<open>At least one segment\<close>

text \<open>
  C10: for every input text and every duration \<open>createSmartSubtitles\<close> returns at least one
  segment; for the empty string and for an input of whitespace only it returns exactly
  one segment, whose text is the empty string.
\<close>

theorem at_least_one_segment:
  "createSmartSubtitles fullText totalDuration \<noteq> [] \<and>
   ((\<forall>c\<in>set fullText. is_ws c) \<longrightarrow>
      (\<exists>seg. createSmartSubtitles fullText totalDuration = [seg] \<and> seg_text seg = []))"
proof -
  obtain gs where "make_chunks (split space (cleanText fullText)) = map join gs" and "gs \<noteq> []"
    using chunks_of_text by blast
  then have "length (createSmartSubtitles fullText totalDuration) \<noteq> 0"
    by (simp add: length_createSmartSubtitles)
  then show ?thesis
    by (auto simp: createSmartSubtitles_empty dest: cleanText_all_ws)
qed

theorem at_least_one_segment_witness:
  "list_all is_ws (js ''  '') \<and>
   createSmartSubtitles (js ''  '') (Fin 6)
     = [\<lparr>seg_text = [], seg_start = Fin 0, seg_end = NaN\<rparr>]"
  using at_least_one_segment [of "js ''  ''" "Fin 6"] by (simp add: eval_defs)

subsection \<open>Empty input\<close>

text \<open>
  C2, as the code has it: the division by \<open>totalChars = 0\<close> is not guarded. For an input
  that normalizes to the empty string the result is one segment with the empty text, the
  start 0 and the end \<open>NaN\<close>, whatever the duration is.
\<close>

theorem empty_text_one_NaN_segment:
  "cleanText fullText = [] \<Longrightarrow>
   createSmartSubtitles fullText totalDuration
     = [\<lparr>seg_text = [], seg_start = Fin 0, seg_end = NaN\<rparr>]"
  by (rule createSmartSubtitles_empty)

theorem empty_text_one_NaN_segment_witness:
  "cleanText (js '' '') = [] \<and>
   createSmartSubtitles (js '' '') (Fin 6)
     = [\<lparr>seg_text = [], seg_start = Fin 0, seg_end = NaN\<rparr>]"
proof -
  have h: "cleanText (js '' '') = []" by (simp add: eval_defs)
  from h empty_text_one_NaN_segment [OF h, of "Fin 6"] show ?thesis by simp
qed

text \<open>
  C2 as stated fails: the empty string does not give the empty list, and the end of the
  segment it gives is \<open>NaN\<close>.
\<close>

theorem empty_text_not_guarded:
  "cleanText [] = [] \<and> createSmartSubtitles [] (Fin 6) \<noteq> [] \<and>
   map seg_end (createSmartSubtitles [] (Fin 6)) = [NaN]"
  by (simp add: eval_defs)

subsection \<open>The end of the last segment\<close>

text \<open>
  C1, as the code has it, in exact arithmetic: for a text that normalizes to a non-empty
  string and a finite positive duration, the end of the last segment is
  \<open>totalDuration * (totalChars + 1 - n) / totalChars\<close>, where \<open>n\<close> is the number of
  segments: the space between two chunks counts in \<open>totalChars\<close> and in no chunk. It is the
  total duration exactly when there is one segment.
\<close>

theorem last_end_time:
  assumes "cleanText fullText \<noteq> []" and "0 < d"
  shows "let segs = createSmartSubtitles fullText (Fin d);
             totalChars = length (cleanText fullText)
         in length segs \<le> totalChars \<and>
            seg_end (last segs) = Fin (real (totalChars + 1 - length segs) / real totalChars * d) \<and>
            (seg_end (last segs) = Fin d \<longleftrightarrow> length segs = 1)"
proof -
  let ?s = "cleanText fullText"
  let ?ch = "make_chunks (split space ?s)"
  obtain gs where mk: "?ch = map join gs" and cc: "concat gs = split space ?s"
    and gne: "gs \<noteq> []" and ne: "\<forall>g\<in>set gs. 1 \<le> length g \<and> length g \<le> 6"
    using chunks_of_text by blast
  from ne have ne': "\<forall>g\<in>set gs. g \<noteq> []" by auto
  have len: "length ?ch = length gs" by (simp add: mk)
  have tot: "sum_list (map length ?ch) + length gs = Suc (length ?s)"
    using mk cc ne' by (rule chunk_lengths_total)
  have nonempty: "\<forall>c\<in>set ?ch. c \<noteq> []"
    using assms(1) by (rule chunks_nonempty)
  have "length ?ch \<le> sum_list (map length ?ch)"
    using nonempty by (rule length_le_sum_lengths)
  with tot len have le: "length gs \<le> length ?s" by simp
  have T: "length ?s \<noteq> 0" using assms(1) by simp
  from gne have chne: "?ch \<noteq> []" by (simp add: mk)
  have e: "seg_end (last (createSmartSubtitles fullText (Fin d)))
      = Fin (real (sum_list (map length ?ch)) / real (length ?s) * d)"
    using assign_times_last_end [OF T chne, of d 0]
    by (simp add: createSmartSubtitles_def Let_def)
  from tot have sum: "sum_list (map length ?ch) = length ?s + 1 - length gs" by simp
  have "(real (length ?s + 1 - length gs) / real (length ?s) * d = d) \<longleftrightarrow> length gs = 1"
  proof -
    have A: "x * d = d \<longleftrightarrow> x = 1" for x :: real using assms(2) by auto
    have B: "real n / real (length ?s) = 1 \<longleftrightarrow> n = length ?s" for n
      using T by (simp add: divide_eq_eq)
    have "real (length ?s + 1 - length gs) / real (length ?s) * d = d
      \<longleftrightarrow> length ?s + 1 - length gs = length ?s"
      by (simp only: A B)
    also have "\<dots> \<longleftrightarrow> length gs = 1" using le T by auto
    finally show ?thesis .
  qed
  with e sum le len show ?thesis
    by (simp add: Let_def length_createSmartSubtitles)
qed

theorem last_end_time_witness:
  "cleanText (js ''a b.  c d.'') \<noteq> [] \<and> (0::real) < 6 \<and>
   length (createSmartSubtitles (js ''a b.  c d.'') (Fin 6)) = 2 \<and>
   seg_end (last (createSmartSubtitles (js ''a b.  c d.'') (Fin 6))) = Fin (16 / 3)"
  using last_end_time [of "js ''a b.  c d.''" 6] by (simp add: eval_defs)

text \<open>
  C1 as stated fails on the scenario of the specification: with a duration of 6 seconds
  the four segments end at \<open>180 / 31\<close>, about 5.806 seconds, which is not within
  \<open>1e-6\<close> of 6.
\<close>

theorem last_end_short_of_duration:
  "cleanText
     (js ''Faith is not about everything turning out okay. It's about trusting God even when it doesn't.'') \<noteq> [] \<and>
   map seg_end (createSmartSubtitles
     (js ''Faith is not about everything turning out okay. It's about trusting God even when it doesn't.'') (Fin 6))
     = [Fin (58 / 31), Fin (92 / 31), Fin (148 / 31), Fin (180 / 31)] \<and>
   seg_end (last (createSmartSubtitles
     (js ''Faith is not about everything turning out okay. It's about trusting God even when it doesn't.'') (Fin 6)))
     = Fin (180 / 31) \<and>
   \<not> \<bar>180 / 31 - 6\<bar> \<le> (1 / 1000000 :: real)"
  by (simp add: eval_defs)

subsection \<open>Order and contiguity\<close>

text \<open>
  C5: for a text that normalizes to a non-empty string and a positive duration, the
  segments start at 0, every segment starts no later than it ends, and every segment
  ends exactly where the next one starts, so that the starts and the ends never
  decrease.
\<close>

theorem segments_contiguous:
  assumes "cleanText fullText \<noteq> []" and "js_lt (Fin 0) totalDuration"
  shows "let segs = createSmartSubtitles fullText totalDuration
         in seg_start (segs ! 0) = Fin 0 \<and>
            (\<forall>i<length segs. js_le (seg_start (segs ! i)) (seg_end (segs ! i))) \<and>
            (\<forall>i. Suc i < length segs \<longrightarrow>
               js_eq (seg_end (segs ! i)) (seg_start (segs ! Suc i)) \<and>
               js_le (seg_start (segs ! i)) (seg_start (segs ! Suc i)) \<and>
               js_le (seg_end (segs ! i)) (seg_end (segs ! Suc i)))"
proof -
  let ?segs = "createSmartSubtitles fullText totalDuration"
  have T: "length (cleanText fullText) \<noteq> 0" using assms(1) by simp
  have ne: "?segs \<noteq> []"
    using chunks_of_text [of "cleanText fullText"] length_createSmartSubtitles [of fullText totalDuration]
    by auto
  have "(?segs \<noteq> [] \<longrightarrow> seg_start (?segs ! 0) = Fin 0) \<and>
        (\<forall>i<length ?segs. js_le (seg_start (?segs ! i)) (seg_end (?segs ! i))) \<and>
        (\<forall>i. Suc i < length ?segs \<longrightarrow> js_eq (seg_end (?segs ! i)) (seg_start (?segs ! Suc i)))"
    using assign_times_contiguous [OF T assms(2) _ chunks_nonempty [OF assms(1)], of "Fin 0"]
    by (simp add: createSmartSubtitles_def Let_def)
  then have st: "seg_start (?segs ! 0) = Fin 0"
    and le: "\<And>i. i < length ?segs \<Longrightarrow> js_le (seg_start (?segs ! i)) (seg_end (?segs ! i))"
    and eq: "\<And>i. Suc i < length ?segs \<Longrightarrow> js_eq (seg_end (?segs ! i)) (seg_start (?segs ! Suc i))"
    using ne by auto
  have "js_le (seg_start (?segs ! i)) (seg_start (?segs ! Suc i)) \<and>
        js_le (seg_end (?segs ! i)) (seg_end (?segs ! Suc i))" if "Suc i < length ?segs" for i
  proof -
    from eq [OF that] have "seg_end (?segs ! i) = seg_start (?segs ! Suc i)"
      by (simp add: js_eq_def)
    with le [of i] le [of "Suc i"] that show ?thesis by simp
  qed
  with st le eq show ?thesis by (simp add: Let_def)
qed

theorem segments_contiguous_witness:
  "cleanText (js ''a b.  c d.'') \<noteq> [] \<and> js_lt (Fin 0) (Fin 6) \<and>
   length (createSmartSubtitles (js ''a b.  c d.'') (Fin 6)) = 2 \<and>
   js_eq (seg_end (createSmartSubtitles (js ''a b.  c d.'') (Fin 6) ! 0))
         (seg_start (createSmartSubtitles (js ''a b.  c d.'') (Fin 6) ! Suc 0))"
  using segments_contiguous [of "js ''a b.  c d.''" "Fin 6"]
  by (simp add: eval_defs js_eq_def)

section \<open>Properties of the caption lookup\<close>

text \<open>
  C3, as the code has it: without video data, and at a time that is 0 or \<open>NaN\<close>, the
  lookup returns the empty string. At any other time it returns the text of the first
  segment with \<open>start <= t <= end\<close>, both ends included, and the empty string when no
  segment matches.
\<close>

theorem active_caption:
  "getCurrentSubtitle None currentTime = [] \<and>
   (js_not currentTime \<longrightarrow> getCurrentSubtitle (Some vd) currentTime = []) \<and>
   (\<not> js_not currentTime \<longrightarrow>
      (let segs = subtitles vd;
           active = (\<lambda>i. js_le (seg_start (segs ! i)) currentTime \<and>
                          js_le currentTime (seg_end (segs ! i)))
       in (\<forall>i<length segs. active i \<and> (\<forall>j<i. \<not> active j) \<longrightarrow>
             getCurrentSubtitle (Some vd) currentTime = seg_text (segs ! i)) \<and>
          ((\<forall>i<length segs. \<not> active i) \<longrightarrow> getCurrentSubtitle (Some vd) currentTime = [])))"
proof -
  let ?P = "\<lambda>seg. js_ge currentTime (seg_start seg) \<and> js_le currentTime (seg_end seg)"
  have "getCurrentSubtitle (Some vd) currentTime = seg_text (subtitles vd ! i)"
    if "\<not> js_not currentTime" "i < length (subtitles vd)" "?P (subtitles vd ! i)"
      "\<forall>j<i. \<not> ?P (subtitles vd ! j)" for i
    using find_first [of i "subtitles vd" ?P, OF that(2-4)] that(1)
    by (simp add: getCurrentSubtitle_def)
  moreover have "getCurrentSubtitle (Some vd) currentTime = []"
    if "\<not> js_not currentTime" "\<forall>i<length (subtitles vd). \<not> ?P (subtitles vd ! i)"
    using find_none [of "subtitles vd" ?P, OF that(2)] that(1)
    by (simp add: getCurrentSubtitle_def)
  ultimately show ?thesis by (simp add: Let_def js_ge_def getCurrentSubtitle_def)
qed

theorem active_caption_witness:
  "\<not> js_not (Fin 1) \<and>
   js_le (Fin 0) (Fin 1) \<and> js_le (Fin 1) (Fin 1) \<and>
   getCurrentSubtitle
     (Some \<lparr>sequence = [], audioUrl = [],
            subtitles = [\<lparr>seg_text = js ''A'', seg_start = Fin 0, seg_end = Fin 1\<rparr>,
                         \<lparr>seg_text = js ''B'', seg_start = Fin 1, seg_end = Fin 2\<rparr>]\<rparr>)
     (Fin 1) = js ''A''"
  using active_caption [of "Fin 1"
      "\<lparr>sequence = [], audioUrl = [],
        subtitles = [\<lparr>seg_text = js ''A'', seg_start = Fin 0, seg_end = Fin 1\<rparr>,
                     \<lparr>seg_text = js ''B'', seg_start = Fin 1, seg_end = Fin 2\<rparr>]\<rparr>"]
  by (simp add: js_not_def getCurrentSubtitle_def js_ge_def)

text \<open>
  The examples of the specification: 0.5 and 1.0 give \<open>A\<close>, 2.5 gives no caption.
\<close>

lemma active_caption_examples:
  "getCurrentSubtitle
     (Some \<lparr>sequence = [], audioUrl = [],
            subtitles = [\<lparr>seg_text = js ''A'', seg_start = Fin 0, seg_end = Fin 1\<rparr>,
                         \<lparr>seg_text = js ''B'', seg_start = Fin 1, seg_end = Fin 2\<rparr>]\<rparr>)
     (Fin (1 / 2)) = js ''A''"
  "getCurrentSubtitle
     (Some \<lparr>sequence = [], audioUrl = [],
            subtitles = [\<lparr>seg_text = js ''A'', seg_start = Fin 0, seg_end = Fin 1\<rparr>,
                         \<lparr>seg_text = js ''B'', seg_start = Fin 1, seg_end = Fin 2\<rparr>]\<rparr>)
     (Fin 1) = js ''A''"
  "getCurrentSubtitle
     (Some \<lparr>sequence = [], audioUrl = [],
            subtitles = [\<lparr>seg_text = js ''A'', seg_start = Fin 0, seg_end = Fin 1\<rparr>,
                         \<lparr>seg_text = js ''B'', seg_start = Fin 1, seg_end = Fin 2\<rparr>]\<rparr>)
     (Fin (5 / 2)) = []"
  by (simp_all add: js_not_def getCurrentSubtitle_def js_ge_def)

text \<open>
  C3 as stated fails at \<open>t = 0\<close>: the first segment has \<open>start <= 0 <= end\<close>, and the
  lookup returns the empty string, not \<open>A\<close>.
\<close>

theorem no_caption_at_zero:
  "js_le (Fin 0) (Fin 0) \<and> js_le (Fin 0) (Fin 1) \<and>
   getCurrentSubtitle
     (Some \<lparr>sequence = [], audioUrl = [],
            subtitles = [\<lparr>seg_text = js ''A'', seg_start = Fin 0, seg_end = Fin 1\<rparr>,
                         \<lparr>seg_text = js ''B'', seg_start = Fin 1, seg_end = Fin 2\<rparr>]\<rparr>)
     (Fin 0) = [] \<and>
   js ''A'' \<noteq> []"
  by (simp add: js_not_def getCurrentSubtitle_def js_def)

section \<open>Properties of the duration estimate\<close>

text \<open>
  C8: for every byte count \<open>n\<close> of PCM data the duration is \<open>n / 48000\<close>, which is
  \<open>n / (sampleRate * channels * bytesPerSample)\<close> for 24000 Hz, 1 channel and 2 bytes per
  sample; 48000 bytes give 1 second, 0 bytes give 0 seconds and 96000 bytes give 2
  seconds.
\<close>

theorem duration_formula:
  "audioDurationSeconds n = Fin (real n / 48000) \<and>
   audioDurationSeconds n = js_div (num n) (js_mul (js_mul (num 24000) (num 1)) (num 2)) \<and>
   audioDurationSeconds 48000 = Fin 1 \<and>
   audioDurationSeconds 0 = Fin 0 \<and>
   audioDurationSeconds 96000 = Fin 2"
  by (simp add: audioDurationSeconds_def num_def Let_def)

section \<open>Properties of the WAV header\<close>

text \<open>
  C9, as the code has it: for every data length \<open>n\<close>, a non-negative integer with
  \<open>36 + n < 2^32\<close>, the header has 44 bytes, the field at the offset 4 is \<open>36 + n\<close> and the
  field at the offset 40 is \<open>n\<close>. The field at the offset 28 is 48000 for the default
  parameters, and it is \<open>sampleRate * numChannels * (bitsPerSample / 8)\<close> for parameters
  that are non-negative integers with \<open>bitsPerSample\<close> a multiple of 8 and that product
  positive and below \<open>2^32\<close>.
\<close>

theorem wav_header_fields:
  assumes "36 + n < 2 ^ 32"
  shows "map_option length (createWavHeader (num n) sr ch bps) = Some 44 \<and>
     header_field 4 (createWavHeader (num n) sr ch bps) = Some (36 + n) \<and>
     header_field 40 (createWavHeader (num n) sr ch bps) = Some n \<and>
     header_field 28 (createWavHeader_default (num n)) = Some 48000 \<and>
     (8 dvd b \<and> 0 < s * c * (b div 8) \<and> s * c * (b div 8) < 2 ^ 32 \<longrightarrow>
        header_field 28 (createWavHeader (num n) (num s) (num c) (num b))
          = Some (s * c * (b div 8)))"
proof -
  have "(2::nat) ^ 32 \<le> 2 ^ 53" by simp
  with assms have "36 + n < 2 ^ 53" by linarith
  then have "header_field 4 (createWavHeader (num n) sr ch bps) = Some (36 + n)"
    using assms by (simp add: header_field_4)
  moreover have "header_field 40 (createWavHeader (num n) sr ch bps) = Some n"
    using assms by (simp add: header_field_40)
  moreover have "header_field 28 (createWavHeader (num n) (num s) (num c) (num b))
          = Some (s * c * (b div 8))"
    if "8 dvd b" "0 < s * c * (b div 8)" "s * c * (b div 8) < 2 ^ 32"
    using that by (simp add: header_field_28 byte_rate_nat unat_to_uint32_num)
  ultimately show ?thesis by (simp add: header_length default_byte_rate)
qed

theorem wav_header_fields_witness:
  "36 + 1000 < (2::nat) ^ 32 \<and>
   map_option length (createWavHeader_default (num 1000)) = Some 44 \<and>
   header_field 4 (createWavHeader_default (num 1000)) = Some 1036 \<and>
   header_field 40 (createWavHeader_default (num 1000)) = Some 1000 \<and>
   header_field 28 (createWavHeader_default (num 1000)) = Some 48000"
  using wav_header_fields [of 1000 "num 24000" "num 1" "num 16" 16 24000 1]
  by (simp add: createWavHeader_default_def)

text \<open>
  C9 as stated fails for a data length of \<open>2^32 - 36\<close> bytes: the fields are unsigned
  32-bit integers, and the one at the offset 4 wraps around to 0.
\<close>

theorem riff_length_wraps:
  "header_field 4 (createWavHeader_default (num 4294967260)) = Some 0 \<and>
   header_field 4 (createWavHeader_default (num 4294967260)) \<noteq> Some (36 + 4294967260)"
  by (simp add: header_field_4 createWavHeader_default_def)

text \<open>
  For a data length of \<open>2^60\<close> the sum \<open>36 + dataLength\<close> is rounded to \<open>2^60\<close> before it
  is written, and the field at the offset 4 is 0.
\<close>

lemma riff_length_rounds:
  "header_field 4 (createWavHeader_default (num (2 ^ 60))) = Some 0"
proof -
  have "fl_add (num 36) (num (2 ^ 60)) = num (2 ^ 60)"
    using round_example_1 by (simp add: fl_add_def fl_def num_def add.commute)
  then show ?thesis
    using createWavHeader_fields [of "num (2 ^ 60)" "num 24000" "num 1" "num 16"]
    by (auto simp: header_field_def createWavHeader_default_def unat_to_uint32_num)
qed

end
